theory Spec2Isabelle
  imports Main "HOL-Library.Sublist"
begin

section \<open>Strings and character classes\<close>

text \<open>
  The renderer of the chat front end works on JavaScript strings with regular expressions
  that have no \<open>u\<close> flag, so every pattern element consumes one code unit. A string is
  modelled as a \<open>char list\<close>; a \<open>char\<close> is a code unit in the range 0..255, which
  covers ASCII and U+00A0, the only non-ASCII unit below 256 that the code treats specially.
\<close>

abbreviation NL :: char where "NL \<equiv> CHR 0x0A"
abbreviation CR :: char where "CR \<equiv> CHR 0x0D"
abbreviation NBSP :: char where "NBSP \<equiv> CHR 0xA0"
abbreviation QUOT :: char where "QUOT \<equiv> CHR 0x22"
abbreviation BT :: char where "BT \<equiv> CHR 0x60"

text \<open>ECMAScript \<open>LineTerminator\<close>: what \<open>.\<close> refuses and what \<open>^\<close> and \<open>$\<close> look for
  under the \<open>m\<close> flag.\<close>

definition LineTerminator :: "char \<Rightarrow> bool" where
  "LineTerminator c \<longleftrightarrow> c = NL \<or> c = CR"

text \<open>The class \<open>\s\<close>, which is also what \<open>String.prototype.trim\<close> removes: TAB, LF, VT, FF,
  CR, SPACE and NO-BREAK SPACE.\<close>

definition WhiteSpace :: "char \<Rightarrow> bool" where
  "WhiteSpace c \<longleftrightarrow> c = CHR 0x09 \<or> c = NL \<or> c = CHR 0x0B \<or> c = CHR 0x0C \<or> c = CR
     \<or> c = CHR '' '' \<or> c = NBSP"

text \<open>The class \<open>\d\<close>.\<close>

definition digit :: "char \<Rightarrow> bool" where
  "digit c \<longleftrightarrow> c \<in> set ''0123456789''"

text \<open>The class \<open>\w\<close>: \<open>[A-Za-z0-9_]\<close>.\<close>

definition word_char :: "char \<Rightarrow> bool" where
  "word_char c \<longleftrightarrow>
     c \<in> set ''abcdefghijklmnopqrstuvwxyz'' \<or> c \<in> set ''ABCDEFGHIJKLMNOPQRSTUVWXYZ''
     \<or> digit c \<or> c = CHR ''_''"

text \<open>\<open>strip_prefix p s\<close> is what is left of \<open>s\<close> after the literal \<open>p\<close>, if \<open>s\<close> starts
  with it.\<close>

fun strip_prefix :: "string \<Rightarrow> string \<Rightarrow> string option" where
  "strip_prefix [] s = Some s"
| "strip_prefix (p # ps) [] = None"
| "strip_prefix (p # ps) (c # cs) = (if p = c then strip_prefix ps cs else None)"

text \<open>\<open>String.prototype.trim\<close>.\<close>

definition trim :: "string \<Rightarrow> string" where
  "trim s = rev (dropWhile WhiteSpace (rev (dropWhile WhiteSpace s)))"

section \<open>\<open>escapeHtml\<close>\<close>

text \<open>
  \<open>escapeHtml\<close> puts the text into a text node under a fresh \<open>div\<close> and reads the
  \<open>innerHTML\<close> of the \<open>div\<close>. The HTML fragment serialisation of a text node escapes
  \<open>&\<close>, U+00A0, \<open><\<close> and \<open>>\<close>; the double quote is escaped in attribute values only, so
  it passes through here.
\<close>

fun escape_char :: "char \<Rightarrow> string" where
  "escape_char c =
     (if c = CHR ''&'' then ''&amp;''
      else if c = NBSP then ''&nbsp;''
      else if c = CHR ''<'' then ''&lt;''
      else if c = CHR ''>'' then ''&gt;''
      else [c])"

definition escapeHtml :: "string \<Rightarrow> string" where
  "escapeHtml text = concat (map escape_char text)"

section \<open>\<open>String.prototype.replace\<close> with a global regular expression\<close>

text \<open>
  A matcher models one regular expression at one position: it is given whether the position
  is a line start (position 0, or the unit before it is a line terminator; this is all that
  \<open>^\<close> needs under the \<open>m\<close> flag) and the input from that position on, and it returns the
  expanded replacement and the length of the match, or \<open>None\<close> when the expression does not
  match there.

  \<open>replace_all\<close> is the scan of \<open>replace\<close> with the \<open>g\<close> flag: the leftmost match from the
  current position is replaced and the scan goes on behind it; an empty match is followed
  by a copy of one unit. Input that belongs to no match is copied.
\<close>

type_synonym matcher = "bool \<Rightarrow> string \<Rightarrow> (string \<times> nat) option"

function replace_all :: "matcher \<Rightarrow> bool \<Rightarrow> string \<Rightarrow> string" where
  "replace_all m bol [] = (case m bol [] of None \<Rightarrow> [] | Some (r, n) \<Rightarrow> r)"
| "replace_all m bol (c # cs) =
     (case m bol (c # cs) of
        None \<Rightarrow> c # replace_all m (LineTerminator c) cs
      | Some (r, n) \<Rightarrow>
          if n = 0 then r @ c # replace_all m (LineTerminator c) cs
          else r @ replace_all m (LineTerminator (last (take n (c # cs)))) (drop n (c # cs)))"
  by pat_completeness auto
termination
  by (relation "measure (\<lambda>(m, bol, s). length s)") auto

declare replace_all.simps [simp del]

definition replace :: "matcher \<Rightarrow> string \<Rightarrow> string" where
  "replace m s = replace_all m True s"

section \<open>The regular expressions of \<open>renderMarkdown\<close>\<close>

subsection \<open>Code\<close>

text \<open>\<open>until_fence s\<close> is what the lazy \<open>[\s\S]*?\<close> takes before the closing fence: the text
  before the first \<open>```\<close> in \<open>s\<close>.\<close>

fun until_fence :: "string \<Rightarrow> string option" where
  "until_fence [] = None"
| "until_fence (c # cs) =
     (if strip_prefix ''```'' (c # cs) \<noteq> None then Some []
      else map_option ((#) c) (until_fence cs))"

text \<open>\<open>/```(\w*)\n([\s\S]*?)```/g\<close>, replaced by
  \<open>'<pre><code>' + code.trim() + '</code></pre>'\<close>. The greedy \<open>\w*\<close> has to stop at a
  newline, which is no word character, so giving units back never helps.\<close>

definition fence_match :: matcher where
  "fence_match bol s =
     (case strip_prefix ''```'' s of
        None \<Rightarrow> None
      | Some s1 \<Rightarrow>
          (case dropWhile word_char s1 of
             [] \<Rightarrow> None
           | c # s2 \<Rightarrow>
               if c = NL then
                 (case until_fence s2 of
                    None \<Rightarrow> None
                  | Some code \<Rightarrow>
                      Some (''<pre><code>'' @ trim code @ ''</code></pre>'',
                            3 + length (takeWhile word_char s1) + 1 + length code + 3))
               else None))"

text \<open>\<open>/`([^`]+)`/g\<close>, replaced by \<open>'<code>$1</code>'\<close>.\<close>

definition code_match :: matcher where
  "code_match bol s =
     (case s of
        [] \<Rightarrow> None
      | c # s1 \<Rightarrow>
          if c = BT then
            (let body = takeWhile (\<lambda>x. x \<noteq> BT) s1 in
             if body \<noteq> [] \<and> dropWhile (\<lambda>x. x \<noteq> BT) s1 \<noteq> []
             then Some (''<code>'' @ body @ ''</code>'', length body + 2)
             else None)
          else None)"

subsection \<open>Whole lines\<close>

text \<open>\<open>/^P(.+)$/gm\<close> for a literal \<open>P\<close>, replaced by \<open>'<T>$1</T>'\<close>: at a line start, the
  literal, then the rest of the line, which must not be empty. After the greedy \<open>.+\<close> the
  position is the end of the input or in front of a line terminator, so \<open>$\<close> holds.\<close>

definition line_match :: "string \<Rightarrow> string \<Rightarrow> matcher" where
  "line_match p tag bol s =
     (if bol then
        (case strip_prefix p s of
           None \<Rightarrow> None
         | Some s1 \<Rightarrow>
             (let line = takeWhile (\<lambda>x. \<not> LineTerminator x) s1 in
              if line \<noteq> []
              then Some (''<'' @ tag @ ''>'' @ line @ ''</'' @ tag @ ''>'', length p + length line)
              else None))
      else None)"

text \<open>\<open>/^\d+\. (.+)$/gm\<close>, replaced by \<open>'<li>$1</li>'\<close>.\<close>

definition ol_match :: matcher where
  "ol_match bol s =
     (if bol \<and> takeWhile digit s \<noteq> [] then
        (case strip_prefix ''. '' (dropWhile digit s) of
           None \<Rightarrow> None
         | Some s1 \<Rightarrow>
             (let line = takeWhile (\<lambda>x. \<not> LineTerminator x) s1 in
              if line \<noteq> []
              then Some (''<li>'' @ line @ ''</li>'', length (takeWhile digit s) + 2 + length line)
              else None))
      else None)"

subsection \<open>Emphasis\<close>

text \<open>\<open>/\*\*([^*]+)\*\*/g\<close>, replaced by \<open>'<strong>$1</strong>'\<close>.\<close>

definition bold_match :: matcher where
  "bold_match bol s =
     (case strip_prefix ''**'' s of
        None \<Rightarrow> None
      | Some s1 \<Rightarrow>
          (let body = takeWhile (\<lambda>x. x \<noteq> CHR ''*'') s1 in
           if body \<noteq> [] \<and> strip_prefix ''**'' (dropWhile (\<lambda>x. x \<noteq> CHR ''*'') s1) \<noteq> None
           then Some (''<strong>'' @ body @ ''</strong>'', length body + 4)
           else None))"

text \<open>\<open>/\*([^*]+)\*/g\<close>, replaced by \<open>'<em>$1</em>'\<close>.\<close>

definition italic_match :: matcher where
  "italic_match bol s =
     (case strip_prefix ''*'' s of
        None \<Rightarrow> None
      | Some s1 \<Rightarrow>
          (let body = takeWhile (\<lambda>x. x \<noteq> CHR ''*'') s1 in
           if body \<noteq> [] \<and> dropWhile (\<lambda>x. x \<noteq> CHR ''*'') s1 \<noteq> []
           then Some (''<em>'' @ body @ ''</em>'', length body + 2)
           else None))"

subsection \<open>Grouping list items\<close>

text \<open>\<open>last_close l\<close> is the offset of the last \<open></li>\<close> in \<open>l\<close>: where the greedy \<open>.*\<close> of
  \<open><li>.*<\/li>\<close> stops when it gives units back.\<close>

fun last_close :: "string \<Rightarrow> nat option" where
  "last_close [] = None"
| "last_close (c # cs) =
     (case last_close cs of
        Some i \<Rightarrow> Some (Suc i)
      | None \<Rightarrow> if strip_prefix ''</li>'' (c # cs) \<noteq> None then Some 0 else None)"

text \<open>One round of \<open>(?:<li>.*<\/li>\n?)\<close>: its length, if it matches at the start of \<open>s\<close>.\<close>

definition li_item :: "string \<Rightarrow> nat option" where
  "li_item s =
     (case strip_prefix ''<li>'' s of
        None \<Rightarrow> None
      | Some s1 \<Rightarrow>
          (case last_close (takeWhile (\<lambda>x. \<not> LineTerminator x) s1) of
             None \<Rightarrow> None
           | Some i \<Rightarrow>
               (case drop (i + 5) s1 of
                  [] \<Rightarrow> Some (i + 9)
                | c # _ \<Rightarrow> if c = NL then Some (i + 10) else Some (i + 9))))"

text \<open>The greedy \<open>+\<close>: rounds are taken as long as one matches. \<open>li_items k s\<close> is the total
  length; \<open>k\<close> bounds the number of rounds and is the length of the input where it is used,
  which is enough since a round takes at least nine units.\<close>

fun li_items :: "nat \<Rightarrow> string \<Rightarrow> nat" where
  "li_items 0 s = 0"
| "li_items (Suc k) s =
     (case li_item s of None \<Rightarrow> 0 | Some n \<Rightarrow> n + li_items k (drop n s))"

text \<open>\<open>/((?:<li>.*<\/li>\n?)+)/g\<close>, replaced by \<open>'<ul>$1</ul>'\<close>.\<close>

definition ul_match :: matcher where
  "ul_match bol s =
     (let n = li_items (length s) s in
      if n = 0 then None else Some (''<ul>'' @ take n s @ ''</ul>'', n))"

subsection \<open>Paragraphs and the cleanup\<close>

text \<open>\<open>/\n\n/g\<close>, replaced by \<open>'</p><p>'\<close>.\<close>

definition para_match :: matcher where
  "para_match bol s = (case strip_prefix [NL, NL] s of None \<Rightarrow> None | Some _ \<Rightarrow> Some (''</p><p>'', 2))"

text \<open>\<open>/<p>\s*<\/p>/g\<close>, replaced by the empty string.\<close>

definition empty_p_match :: matcher where
  "empty_p_match bol s =
     (case strip_prefix ''<p>'' s of
        None \<Rightarrow> None
      | Some s1 \<Rightarrow>
          if strip_prefix ''</p>'' (dropWhile WhiteSpace s1) \<noteq> None
          then Some ([], 3 + length (takeWhile WhiteSpace s1) + 4)
          else None)"

text \<open>\<open>first_of ts s\<close> is the first of the literals \<open>ts\<close> that \<open>s\<close> starts with.\<close>

fun first_of :: "string list \<Rightarrow> string \<Rightarrow> string option" where
  "first_of [] s = None"
| "first_of (t # ts) s = (if strip_prefix t s \<noteq> None then Some t else first_of ts s)"

text \<open>\<open>/<p>\s*(T)/g\<close> for an opening tag \<open>T\<close> out of \<open>ts\<close>, replaced by \<open>'$1'\<close>.\<close>

definition open_p_match :: "string list \<Rightarrow> matcher" where
  "open_p_match ts bol s =
     (case strip_prefix ''<p>'' s of
        None \<Rightarrow> None
      | Some s1 \<Rightarrow>
          (case first_of ts (dropWhile WhiteSpace s1) of
             None \<Rightarrow> None
           | Some t \<Rightarrow> Some (t, 3 + length (takeWhile WhiteSpace s1) + length t)))"

text \<open>\<open>/(T)\s*<\/p>/g\<close> for a closing tag \<open>T\<close> out of \<open>ts\<close>, replaced by \<open>'$1'\<close>.\<close>

definition close_p_match :: "string list \<Rightarrow> matcher" where
  "close_p_match ts bol s =
     (case first_of ts s of
        None \<Rightarrow> None
      | Some t \<Rightarrow>
          (let s1 = drop (length t) s in
           if strip_prefix ''</p>'' (dropWhile WhiteSpace s1) \<noteq> None
           then Some (t, length t + length (takeWhile WhiteSpace s1) + 4)
           else None))"

section \<open>\<open>renderMarkdown\<close>\<close>

definition code_stage :: "string \<Rightarrow> string" where
  "code_stage html = replace code_match (replace fence_match html)"

definition header_stage :: "string \<Rightarrow> string" where
  "header_stage html =
     replace (line_match ''# '' ''h1'')
       (replace (line_match ''## '' ''h2'')
         (replace (line_match ''### '' ''h3'') html))"

definition emphasis_stage :: "string \<Rightarrow> string" where
  "emphasis_stage html = replace italic_match (replace bold_match html)"

definition list_stage :: "string \<Rightarrow> string" where
  "list_stage html =
     replace ol_match (replace ul_match (replace (line_match ''- '' ''li'') html))"

definition paragraph_stage :: "string \<Rightarrow> string" where
  "paragraph_stage html = ''<p>'' @ replace para_match html @ ''</p>''"

definition cleanup_stage :: "string \<Rightarrow> string" where
  "cleanup_stage html =
     replace (close_p_match [''</ul>''])
       (replace (open_p_match [''<ul>''])
         (replace (close_p_match [''</pre>''])
           (replace (open_p_match [''<pre>''])
             (replace (close_p_match [''</h1>'', ''</h2>'', ''</h3>''])
               (replace (open_p_match [''<h1>'', ''<h2>'', ''<h3>''])
                 (replace empty_p_match html))))))"

definition renderMarkdown :: "string \<Rightarrow> string" where
  "renderMarkdown text =
     cleanup_stage (paragraph_stage (list_stage (emphasis_stage (header_stage
       (code_stage (escapeHtml text))))))"

section \<open>Properties used in the statements\<close>




text \<open>
  The tags that the stages before the paragraph stage write, all the tags of the renderer, and
  the entity references of the escaping stage. A string is tokenised over a list of tokens
  when it is a sequence of tokens of the list and of units other than \<open><\<close>, \<open>>\<close> and \<open>&\<close>;
  it is safe when it is tokenised over the tags of the renderer and the entity references.
\<close>

definition early_tags :: "string list" where
  "early_tags =
     [''<pre>'', ''</pre>'', ''<code>'', ''</code>'', ''<h1>'', ''</h1>'', ''<h2>'', ''</h2>'',
      ''<h3>'', ''</h3>'', ''<strong>'', ''</strong>'', ''<em>'', ''</em>'', ''<li>'', ''</li>'',
      ''<ul>'', ''</ul>'']"

definition renderer_tags :: "string list" where
  "renderer_tags = early_tags @ [''<p>'', ''</p>'']"

definition entities :: "string list" where
  "entities = [''&amp;'', ''&nbsp;'', ''&lt;'', ''&gt;'']"

definition reserved :: "char \<Rightarrow> bool" where
  "reserved c \<longleftrightarrow> c = CHR ''<'' \<or> c = CHR ''>'' \<or> c = CHR ''&''"

inductive tokenised :: "string list \<Rightarrow> string \<Rightarrow> bool" for T :: "string list" where
  Nil: "tokenised T []"
| Plain: "\<not> reserved c \<Longrightarrow> tokenised T s \<Longrightarrow> tokenised T (c # s)"
| Token: "t \<in> set T \<Longrightarrow> tokenised T s \<Longrightarrow> tokenised T (t @ s)"

code_pred tokenised .

definition safe :: "string \<Rightarrow> bool" where
  "safe s \<longleftrightarrow> tokenised (renderer_tags @ entities) s"

definition inner :: "string list \<Rightarrow> char \<Rightarrow> bool" where
  "inner T c \<longleftrightarrow> (\<exists>t\<in>set T. c \<in> set (tl t))"

definition nonfinal :: "string list \<Rightarrow> char \<Rightarrow> bool" where
  "nonfinal T c \<longleftrightarrow> (\<exists>t\<in>set T. c \<in> set (butlast t))"

definition closing :: "string list \<Rightarrow> char \<Rightarrow> bool" where
  "closing T c \<longleftrightarrow> (\<exists>t\<in>set T. c = last t)"

definition delim :: "string list \<Rightarrow> char \<Rightarrow> bool" where
  "delim T c \<longleftrightarrow> \<not> inner T c \<and> \<not> reserved c"

definition wf_tokens :: "string list \<Rightarrow> bool" where
  "wf_tokens T \<longleftrightarrow> (\<forall>t\<in>set T. 2 \<le> length t \<and> reserved (hd t))"

definition std_tokens :: "string list \<Rightarrow> bool" where
  "std_tokens T \<longleftrightarrow>
     wf_tokens T \<and> \<not> inner T (CHR ''<'') \<and> \<not> nonfinal T (CHR ''>'')
     \<and> (\<forall>c. WhiteSpace c \<longrightarrow> delim T c) \<and> (\<forall>c\<in>set ''`*#-. ''. delim T c)
     \<and> (\<forall>c. digit c \<longrightarrow> \<not> closing T c)
     \<and> (\<forall>t\<in>set T. hd t = CHR ''<'' \<longrightarrow> last t = CHR ''>'')"







section \<open>Evaluation\<close>

lemmas stage_defs =
  renderMarkdown_def cleanup_stage_def paragraph_stage_def list_stage_def emphasis_stage_def
  header_stage_def code_stage_def escapeHtml_def replace_def replace_all.simps

lemmas match_defs =
  fence_match_def code_match_def line_match_def ol_match_def bold_match_def italic_match_def
  ul_match_def li_item_def para_match_def empty_p_match_def open_p_match_def close_p_match_def
  LineTerminator_def WhiteSpace_def digit_def word_char_def trim_def

section \<open>Basic facts\<close>

lemma strip_prefix_Some: "strip_prefix p s = Some r \<longleftrightarrow> s = p @ r"
  by (induction p s rule: strip_prefix.induct) auto


lemma strip_prefix_append [simp]: "strip_prefix p (p @ r) = Some r"
  by (simp add: strip_prefix_Some)





text \<open>One step of the scan at a match that is not empty.\<close>

lemma replace_all_match:
  assumes "m bol (x @ rest) = Some (r, length x)" "x \<noteq> []"
  shows "replace_all m bol (x @ rest) = r @ replace_all m (LineTerminator (last x)) rest"
proof -
  from assms(2) obtain c cs where x: "x = c # cs" by (cases x) auto
  have "replace_all m bol ((c # cs) @ rest)
        = r @ replace_all m (LineTerminator (last (take (length x) (c # cs @ rest))))
                (drop (length x) (c # cs @ rest))"
    using assms(1) by (simp add: replace_all.simps x)
  then show ?thesis by (simp add: replace_all.simps x)
qed

section \<open>Scanning\<close>



lemma replace_all_skip_chars:
  assumes "\<And>b c t. c \<in> set x \<Longrightarrow> m b (c # t) = None"
  shows "replace_all m b (x @ rest)
         = x @ replace_all m (if x = [] then b else LineTerminator (last x)) rest"
  using assms
proof (induction x arbitrary: b)
  case Nil
  then show ?case by (simp add: replace_all.simps)
next
  case (Cons c x)
  then show ?case by (cases x) (simp_all add: replace_all.simps)
qed

text \<open>Matchers that work inside one line.\<close>

lemma line_match_False [simp]: "line_match p tag False s = None"
  by (simp add: replace_all.simps line_match_def)

lemma line_match_Some:
  assumes "line_match p tag b s = Some (r, n)"
  shows "b \<and> (\<exists>line rest. s = p @ line @ rest \<and> line \<noteq> [] \<and> (\<forall>c\<in>set line. \<not> LineTerminator c)
            \<and> (rest = [] \<or> LineTerminator (hd rest))
            \<and> r = ''<'' @ tag @ ''>'' @ line @ ''</'' @ tag @ ''>'' \<and> n = length p + length line)"
proof -
  from assms have b: b by (auto simp: line_match_def split: if_splits)
  from assms b obtain s1 where s1: "strip_prefix p s = Some s1"
    by (auto simp: line_match_def split: option.splits)
  let ?line = "takeWhile (\<lambda>x. \<not> LineTerminator x) s1"
  let ?rest = "dropWhile (\<lambda>x. \<not> LineTerminator x) s1"
  from assms b s1 have l: "?line \<noteq> []" and r: "r = ''<'' @ tag @ ''>'' @ ?line @ ''</'' @ tag @ ''>''"
    and n: "n = length p + length ?line"
    by (auto simp: line_match_def Let_def split: if_splits)
  have "s = p @ ?line @ ?rest" using s1 by (simp add: replace_all.simps strip_prefix_Some)
  moreover have "\<forall>c\<in>set ?line. \<not> LineTerminator c" by (auto dest: set_takeWhileD)
  moreover have "?rest = [] \<or> LineTerminator (hd ?rest)"
    using hd_dropWhile [of "\<lambda>x. \<not> LineTerminator x" s1] by auto
  ultimately show ?thesis using b l r n by blast
qed












section \<open>Lines of a list\<close>









lemma ol_match_False [simp]: "ol_match False s = None"
  by (simp add: ol_match_def)


section \<open>Emphasis spans\<close>

lemma bold_match_nostar: "c \<noteq> CHR ''*'' \<Longrightarrow> bold_match b (c # t) = None"
  by (simp add: bold_match_def)

lemma italic_match_nostar: "c \<noteq> CHR ''*'' \<Longrightarrow> italic_match b (c # t) = None"
  by (simp add: italic_match_def)

lemma bold_match_span:
  assumes "x \<noteq> []" "CHR ''*'' \<notin> set x"
  shows "bold_match b ((''**'' @ x @ ''**'') @ rest)
         = Some (''<strong>'' @ x @ ''</strong>'', length (''**'' @ x @ ''**''))"
proof -
  have "takeWhile (\<lambda>c. c \<noteq> CHR ''*'') (x @ ''**'' @ rest) = x"
    "dropWhile (\<lambda>c. c \<noteq> CHR ''*'') (x @ ''**'' @ rest) = ''**'' @ rest"
    using assms(2) by (simp_all add: takeWhile_append dropWhile_append)
  with assms(1) show ?thesis by (simp add: bold_match_def)
qed

lemma italic_match_span:
  assumes "y \<noteq> []" "CHR ''*'' \<notin> set y"
  shows "italic_match b ((''*'' @ y @ ''*'') @ rest)
         = Some (''<em>'' @ y @ ''</em>'', length (''*'' @ y @ ''*''))"
proof -
  have "takeWhile (\<lambda>c. c \<noteq> CHR ''*'') (y @ ''*'' @ rest) = y"
    "dropWhile (\<lambda>c. c \<noteq> CHR ''*'') (y @ ''*'' @ rest) = ''*'' @ rest"
    using assms(2) by (simp_all add: takeWhile_append dropWhile_append)
  with assms(1) show ?thesis by (simp add: italic_match_def)
qed

lemma bold_rest:
  assumes "y \<noteq> []" "CHR ''*'' \<notin> set y"
  shows "replace_all bold_match b ('' *'' @ y @ ''*'') = '' *'' @ y @ ''*''"
proof -
  obtain c t where y: "y = c # t" using assms(1) by (cases y) auto
  with assms(2) have c: "c \<noteq> CHR ''*''" by auto
  have nb: "bold_match b' (c' # t') = None" if "c' \<in> set y" for b' c' t'
    using that assms(2) by (intro bold_match_nostar) auto
  have "replace_all bold_match b' (y @ ''*'') = y @ replace_all bold_match (LineTerminator (last y)) ''*''" for b'
    using replace_all_skip_chars [of y bold_match b' "''*''", OF nb] assms(1) by simp
  moreover have "replace_all bold_match b' ''*'' = ''*''" for b'
    by (simp add: replace_all.simps bold_match_def)
  moreover have "bold_match b' (CHR ''*'' # y @ ''*'') = None" for b'
    using c by (simp add: bold_match_def y)
  ultimately show ?thesis
    by (simp add: replace_all.simps bold_match_nostar)
qed

lemma emphasis_stage_spans:
  assumes "x \<noteq> []" "CHR ''*'' \<notin> set x" "y \<noteq> []" "CHR ''*'' \<notin> set y"
  shows "emphasis_stage (''**'' @ x @ ''** *'' @ y @ ''*'')
         = ''<strong>'' @ x @ ''</strong> <em>'' @ y @ ''</em>''"
proof -
  have b: "replace_all bold_match True ((''**'' @ x @ ''**'') @ '' *'' @ y @ ''*'')
        = (''<strong>'' @ x @ ''</strong>'') @ replace_all bold_match (LineTerminator (last (''**'' @ x @ ''**''))) ('' *'' @ y @ ''*'')"
    by (rule replace_all_match [where m = bold_match and bol = True and x = "''**'' @ x @ ''**''",
          OF bold_match_span [OF assms(1,2)]]) simp
  let ?pre = "''<strong>'' @ x @ ''</strong> ''"
  have i1: "replace_all italic_match True (?pre @ (''*'' @ y @ ''*'') @ [])
        = ?pre @ replace_all italic_match (if ?pre = [] then True else LineTerminator (last ?pre)) ((''*'' @ y @ ''*'') @ [])"
    using assms(2) by (intro replace_all_skip_chars italic_match_nostar) auto
  have i2: "replace_all italic_match b' ((''*'' @ y @ ''*'') @ [])
        = (''<em>'' @ y @ ''</em>'') @ replace_all italic_match (LineTerminator (last (''*'' @ y @ ''*''))) []" for b'
    by (rule replace_all_match [where m = italic_match and bol = b' and x = "''*'' @ y @ ''*''",
          OF italic_match_span [OF assms(3,4)]]) simp
  have i3: "replace_all italic_match b' [] = []" for b'
    by (simp add: replace_all.simps italic_match_def)
  have "replace bold_match (''**'' @ x @ ''** *'' @ y @ ''*'') = ''<strong>'' @ x @ ''</strong> *'' @ y @ ''*''"
    using b bold_rest [OF assms(3,4)] by (simp add: replace_def)
  moreover have "replace italic_match (''<strong>'' @ x @ ''</strong> *'' @ y @ ''*'') = ''<strong>'' @ x @ ''</strong> <em>'' @ y @ ''</em>''"
    using i1 i2 i3 by (simp add: replace_def)
  ultimately show ?thesis by (simp add: emphasis_stage_def)
qed

section \<open>Header lines\<close>


section \<open>Tokens\<close>

lemma wf_tokenD:
  assumes "wf_tokens T" "t \<in> set T"
  shows "t \<noteq> []" "reserved (hd t)" "butlast t \<noteq> []" "hd t = hd (butlast t)"
proof -
  from assms have l: "2 \<le> length t" and r: "reserved (hd t)" by (auto simp: wf_tokens_def)
  from l obtain x y zs where "t = x # y # zs" by (cases t; cases "tl t") auto
  with r show "t \<noteq> []" "reserved (hd t)" "butlast t \<noteq> []" "hd t = hd (butlast t)" by auto
qed

lemma tokenised_append: "tokenised T a \<Longrightarrow> tokenised T b \<Longrightarrow> tokenised T (a @ b)"
proof (induction a rule: tokenised.induct)
  case Nil
  then show ?case by simp
next
  case (Plain c s)
  then show ?case by (simp add: tokenised.Plain)
next
  case (Token t s)
  then show ?case using tokenised.Token [of t T "s @ b"] by simp
qed

lemma tokenised_token: "t \<in> set T \<Longrightarrow> tokenised T t"
  using tokenised.Token [of t T "[]"] tokenised.Nil by simp

lemma tokenised_plain: "\<forall>c\<in>set s. \<not> reserved c \<Longrightarrow> tokenised T s"
  by (induction s) (auto intro: tokenised.intros)


text \<open>Splitting in front of a unit that is not inside a token.\<close>

lemma tokenised_split_before:
  assumes "tokenised T s" "s = a @ c # b" "\<not> inner T c"
  shows "tokenised T a \<and> tokenised T (c # b)"
  using assms
proof (induction s arbitrary: a rule: tokenised.induct)
  case Nil
  then show ?case by simp
next
  case (Plain c' s')
  show ?case
  proof (cases a)
    case Nil
    with Plain show ?thesis by (auto intro: tokenised.intros)
  next
    case (Cons x a')
    with Plain.prems have "s' = a' @ c # b" "x = c'" by simp_all
    with Plain.IH [of a'] Plain.prems Plain.hyps Cons show ?thesis by (auto intro: tokenised.intros)
  qed
next
  case (Token t s')
  from Token.prems(1) obtain u where
    "(t = a @ u \<and> u @ s' = c # b) \<or> (t @ u = a \<and> s' = u @ c # b)"
    by (auto simp: append_eq_append_conv2)
  then show ?case
  proof
    assume h: "t = a @ u \<and> u @ s' = c # b"
    show ?thesis
    proof (cases u)
      case Nil
      with h Token.hyps show ?thesis using tokenised_token [of t T] by auto
    next
      case (Cons x u')
      with h have t: "t = a @ c # u'" by simp
      show ?thesis
      proof (cases a)
        case Nil
        with t Token.hyps h Cons show ?thesis
          using tokenised.Token [of t T s'] by (auto intro: tokenised.Nil)
      next
        case (Cons y a')
        with t have "c \<in> set (tl t)" by simp
        with Token.hyps(1) have "inner T c" unfolding inner_def by blast
        with Token.prems show ?thesis by simp
      qed
    qed
  next
    assume h: "t @ u = a \<and> s' = u @ c # b"
    with Token.IH [of u] Token.prems have "tokenised T u \<and> tokenised T (c # b)" by simp
    with h Token.hyps show ?thesis
      using tokenised_append [OF tokenised_token [of t T], of u] by auto
  qed
qed

lemma tokenised_Cons_plain:
  assumes "wf_tokens T" "tokenised T (c # b)" "\<not> reserved c"
  shows "tokenised T b"
  using assms(2)
proof (cases rule: tokenised.cases)
  case Plain
  then show ?thesis by simp
next
  case (Token t s')
  from wf_tokenD(1,2) [OF assms(1) Token(2)] Token(1) assms(3) show ?thesis
    by (cases t) auto
qed

text \<open>Splitting behind a unit that no token goes on from.\<close>

lemma tokenised_split_after:
  assumes "wf_tokens T" "tokenised T s" "s = a @ c # b" "\<not> nonfinal T c"
  shows "tokenised T (a @ [c]) \<and> tokenised T b"
  using assms(2-)
proof (induction s arbitrary: a rule: tokenised.induct)
  case Nil
  then show ?case by simp
next
  case (Plain c' s')
  show ?case
  proof (cases a)
    case Nil
    with Plain show ?thesis by (auto intro: tokenised.intros)
  next
    case (Cons x a')
    with Plain.prems have "s' = a' @ c # b" "x = c'" by simp_all
    with Plain.IH [of a'] Plain.prems Plain.hyps Cons show ?thesis by (auto intro: tokenised.intros)
  qed
next
  case (Token t s')
  from Token.prems(1) obtain u where
    "(t = a @ u \<and> u @ s' = c # b) \<or> (t @ u = a \<and> s' = u @ c # b)"
    by (auto simp: append_eq_append_conv2)
  then show ?case
  proof
    assume h: "t = a @ u \<and> u @ s' = c # b"
    show ?thesis
    proof (cases u)
      case Nil
      with h have s': "s' = c # b" and ta: "t = a" by simp_all
      have "\<not> reserved c"
      proof
        assume r: "reserved c"
        from Token.hyps(2) show False
        proof (cases rule: tokenised.cases)
          case Nil
          with s' show ?thesis by simp
        next
          case (Plain c'' s'')
          with r s' show ?thesis by simp
        next
          case (Token t'' s'')
          from wf_tokenD [OF assms(1) Token(2)] Token(1) s' have "c \<in> set (butlast t'')"
            by (cases t''; cases "butlast t''") auto
          with Token(2) have "nonfinal T c" unfolding nonfinal_def by blast
          with \<open>\<not> nonfinal T c\<close> show ?thesis by simp
        qed
      qed
      with Token.hyps(2) s' have "tokenised T b" "tokenised T [c]"
        by (auto intro: tokenised.intros dest: tokenised_Cons_plain [OF assms(1)])
      with ta Token.hyps(1) show ?thesis
        using tokenised_append [OF tokenised_token [of t T], of "[c]"] by simp
    next
      case (Cons x u')
      with h have t: "t = a @ c # u'" and s': "u' @ s' = b" by simp_all
      show ?thesis
      proof (cases u')
        case Nil
        with t s' Token.hyps show ?thesis using tokenised_token [of t T] by simp
      next
        case (Cons y u'')
        with t have "c \<in> set (butlast t)" by (simp add: butlast_append)
        with Token.hyps(1) have "nonfinal T c" unfolding nonfinal_def by blast
        with Token.prems show ?thesis by simp
      qed
    qed
  next
    assume h: "t @ u = a \<and> s' = u @ c # b"
    with Token.IH [of u] Token.prems have "tokenised T (u @ [c]) \<and> tokenised T b" by simp
    with h Token.hyps show ?thesis
      using tokenised_append [OF tokenised_token [of t T], of "u @ [c]"] by auto
  qed
qed

text \<open>Dropping a last unit that ends no token.\<close>

lemma tokenised_butlast:
  assumes "wf_tokens T" "tokenised T s" "s = a @ [c]" "\<not> closing T c"
  shows "tokenised T a"
  using assms(2-)
proof (induction s arbitrary: a rule: tokenised.induct)
  case Nil
  then show ?case by simp
next
  case (Plain c' s')
  show ?case
  proof (cases a)
    case Nil
    then show ?thesis by (simp add: tokenised.Nil)
  next
    case (Cons x a')
    with Plain.prems have "s' = a' @ [c]" "x = c'" by simp_all
    with Plain.IH [of a'] Plain.prems Plain.hyps Cons show ?thesis by (auto intro: tokenised.intros)
  qed
next
  case (Token t s')
  show ?case
  proof (cases s' rule: rev_cases)
    case Nil
    with Token.prems(1) wf_tokenD(1) [OF assms(1) Token.hyps(1)] have "c = last t"
      by (metis append_Nil2 last_snoc)
    with Token.hyps(1) have "closing T c" unfolding closing_def by blast
    with Token.prems show ?thesis by simp
  next
    case (snoc s'' x)
    with Token.prems have "a = t @ s''" "s' = s'' @ [c]" by simp_all
    with Token.IH [of s''] Token.prems Token.hyps show ?thesis
      using tokenised_append [OF tokenised_token [of t T], of s''] by simp
  qed
qed

lemma tokenised_split_delim:
  "wf_tokens T \<Longrightarrow> tokenised T (a @ c # b) \<Longrightarrow> delim T c \<Longrightarrow> tokenised T a \<and> tokenised T b"
  using tokenised_split_before [of T "a @ c # b" a c b] tokenised_Cons_plain [of T c b]
  by (auto simp: delim_def)

lemma tokenised_split_delims:
  assumes "wf_tokens T" "tokenised T (a @ p @ b)" "p \<noteq> []" "\<forall>c\<in>set p. delim T c"
  shows "tokenised T a \<and> tokenised T b"
  using assms(2-)
proof (induction p arbitrary: a)
  case Nil
  then show ?case by simp
next
  case (Cons c p)
  from Cons.prems have ab: "tokenised T a \<and> tokenised T (p @ b)"
    using tokenised_split_delim [OF assms(1), of a c "p @ b"] by simp
  show ?case
  proof (cases "p = []")
    case True
    with ab show ?thesis by simp
  next
    case False
    with Cons.IH [of "[]"] ab Cons.prems show ?thesis by simp
  qed
qed

lemma tokenised_drop_delims:
  "wf_tokens T \<Longrightarrow> tokenised T (p @ b) \<Longrightarrow> \<forall>c\<in>set p. delim T c \<Longrightarrow> tokenised T b"
  using tokenised_split_delims [of T "[]" p b] by (cases "p = []") auto

lemma tokenised_take_delims:
  "wf_tokens T \<Longrightarrow> tokenised T (a @ p) \<Longrightarrow> \<forall>c\<in>set p. delim T c \<Longrightarrow> tokenised T a"
  using tokenised_split_delims [of T a p "[]"] by (cases "p = []") auto

lemma tokenised_take_nonclosing:
  assumes "wf_tokens T"
  shows "tokenised T (a @ p) \<Longrightarrow> \<forall>c\<in>set p. \<not> closing T c \<Longrightarrow> tokenised T a"
proof (induction p rule: rev_induct)
  case Nil
  then show ?case by simp
next
  case (snoc c p)
  from snoc.prems have "tokenised T (a @ p)"
    using tokenised_butlast [OF assms, of "(a @ p) @ [c]" "a @ p" c] by simp
  with snoc show ?case by simp
qed

lemma std_tokensD:
  assumes "std_tokens T"
  shows "wf_tokens T" "\<not> inner T (CHR ''<'')" "\<not> nonfinal T (CHR ''>'')"
    "\<And>c. WhiteSpace c \<Longrightarrow> delim T c" "\<And>c. LineTerminator c \<Longrightarrow> delim T c"
    "delim T BT" "delim T (CHR ''*'')" "delim T (CHR ''#'')" "delim T (CHR '' '')"
    "delim T (CHR ''-'')" "delim T (CHR ''.'')" "delim T NL"
    "\<And>c. digit c \<Longrightarrow> \<not> closing T c"
    "\<And>t. t \<in> set T \<Longrightarrow> hd t = CHR ''<'' \<Longrightarrow> last t = CHR ''>''"
proof -
  from assms have w: "\<forall>c. WhiteSpace c \<longrightarrow> delim T c" and d: "\<forall>c\<in>set ''`*#-. ''. delim T c"
    unfolding std_tokens_def by blast+
  from assms show "wf_tokens T" "\<not> inner T (CHR ''<'')" "\<not> nonfinal T (CHR ''>'')"
    unfolding std_tokens_def by blast+
  from w show "WhiteSpace c \<Longrightarrow> delim T c" for c by blast
  have "WhiteSpace c" if "LineTerminator c" for c
    using that by (auto simp: LineTerminator_def WhiteSpace_def)
  with w show "LineTerminator c \<Longrightarrow> delim T c" for c by blast
  from d show "delim T BT" "delim T (CHR ''*'')" "delim T (CHR ''#'')" "delim T (CHR '' '')"
    "delim T (CHR ''-'')" "delim T (CHR ''.'')" by simp_all
  have "WhiteSpace NL" by (simp add: WhiteSpace_def)
  with w show "delim T NL" by blast
  from assms show "digit c \<Longrightarrow> \<not> closing T c" for c
    unfolding std_tokens_def by blast
  from assms show "t \<in> set T \<Longrightarrow> hd t = CHR ''<'' \<Longrightarrow> last t = CHR ''>''" for t
    unfolding std_tokens_def by blast
qed

lemma tokenised_trim:
  assumes "std_tokens T" "tokenised T s"
  shows "tokenised T (trim s)"
proof -
  note wf = std_tokensD(1) [OF assms(1)] and ws = std_tokensD(4) [OF assms(1)]
  have "tokenised T (takeWhile WhiteSpace s @ dropWhile WhiteSpace s)" using assms(2) by simp
  then have d: "tokenised T (dropWhile WhiteSpace s)"
    by (rule tokenised_drop_delims [OF wf]) (auto dest: set_takeWhileD intro: ws)
  let ?d = "dropWhile WhiteSpace s"
  have "?d = rev (dropWhile WhiteSpace (rev ?d)) @ rev (takeWhile WhiteSpace (rev ?d))"
    by (metis rev_append rev_rev_ident takeWhile_dropWhile_id)
  with d have "tokenised T (rev (dropWhile WhiteSpace (rev ?d)) @ rev (takeWhile WhiteSpace (rev ?d)))"
    by simp
  then have "tokenised T (rev (dropWhile WhiteSpace (rev ?d)))"
    by (rule tokenised_take_delims [OF wf]) (auto dest: set_takeWhileD intro: ws)
  then show ?thesis by (simp add: trim_def)
qed

text \<open>A tag can be cut out of a tokenised string.\<close>

lemma tokenised_cut_tag:
  assumes "std_tokens T" "tokenised T (a @ t @ b)" "t \<in> set T" "hd t = CHR ''<''"
  shows "tokenised T a \<and> tokenised T b"
proof -
  note wf = std_tokensD(1) [OF assms(1)]
  from wf_tokenD(1) [OF wf assms(3)] assms(4) obtain t' where t1: "t = CHR ''<'' # t'"
    by (cases t) auto
  from wf_tokenD(1) [OF wf assms(3)] std_tokensD(14) [OF assms(1,3,4)]
  obtain t'' where t2: "t = t'' @ ''>''" by (cases t rule: rev_cases) auto
  from assms(2) t1 have "tokenised T a"
    using tokenised_split_before [of T "a @ t @ b" a "CHR ''<''" "t' @ b"] std_tokensD(2) [OF assms(1)]
    by simp
  moreover from assms(2) t2 have "tokenised T b"
    using tokenised_split_after [OF wf, of "a @ t @ b" "a @ t''" "CHR ''>''" b]
      std_tokensD(3) [OF assms(1)] by simp
  ultimately show ?thesis ..
qed

lemma tokenised_wrap:
  assumes "tokenised T a" "tokenised T x" "tokenised T b" "t1 \<in> set T" "t2 \<in> set T"
  shows "tokenised T (a @ t1 @ x @ t2 @ b)"
  using assms by (simp add: tokenised_append tokenised_token)

lemma tokenised_tag_mid:
  "tokenised T a \<Longrightarrow> t \<in> set T \<Longrightarrow> tokenised T b \<Longrightarrow> tokenised T (a @ t @ b)"
  by (simp add: tokenised_append tokenised_token)

section \<open>What a match looks like\<close>

lemma replace_all_invariant:
  assumes step: "\<And>a b s r n. P (a @ s) \<Longrightarrow> m b s = Some (r, n) \<Longrightarrow> P (a @ r @ drop n s)"
  shows "P (a @ s) \<Longrightarrow> P (a @ replace_all m b s)"
proof (induction "length s" arbitrary: s a b rule: less_induct)
  case less
  show ?case
  proof (cases "m b s")
    case None
    show ?thesis
    proof (cases s)
      case Nil
      with None less.prems show ?thesis by (simp add: replace_all.simps)
    next
      case (Cons c cs)
      with less.hyps [of cs "a @ [c]"] less.prems None show ?thesis
        by (simp add: replace_all.simps)
    qed
  next
    case (Some x)
    then obtain r n where rn: "m b s = Some (r, n)" by (cases x) auto
    from step [OF less.prems rn] have p: "P (a @ r @ drop n s)" .
    show ?thesis
    proof (cases s)
      case Nil
      with p rn show ?thesis by (simp add: replace_all.simps)
    next
      case (Cons c cs)
      show ?thesis
      proof (cases "n = 0")
        case True
        with p less.hyps [of cs "a @ r @ [c]"] rn Cons show ?thesis
          by (simp add: replace_all.simps)
      next
        case False
        have "length (drop n s) < length s" using False Cons by simp
        from less.hyps [OF this, of "a @ r"] p have "P ((a @ r) @ replace_all m (LineTerminator (last (take n s))) (drop n s))"
          by simp
        with rn Cons False show ?thesis by (simp add: replace_all.simps)
      qed
    qed
  qed
qed

lemma until_fence_Some: "until_fence s = Some code \<Longrightarrow> \<exists>rest. s = code @ ''```'' @ rest"
proof (induction s arbitrary: code)
  case Nil
  then show ?case by simp
next
  case (Cons c s)
  show ?case
  proof (cases "strip_prefix ''```'' (c # s)")
    case None
    with Cons.prems obtain code' where "until_fence s = Some code'" "code = c # code'"
      by auto
    with Cons.IH [of code'] show ?thesis by auto
  next
    case (Some rest)
    with Cons.prems have "code = []" by simp
    moreover from Some have "c # s = ''```'' @ rest" by (simp only: strip_prefix_Some)
    ultimately show ?thesis by simp
  qed
qed

lemma fence_match_Some:
  assumes "fence_match b s = Some (r, n)"
  shows "\<exists>lang code rest. s = ''```'' @ lang @ NL # code @ ''```'' @ rest
           \<and> r = ''<pre>'' @ ''<code>'' @ trim code @ ''</code>'' @ ''</pre>''
           \<and> n = length (''```'' @ lang @ NL # code @ ''```'')"
proof -
  from assms obtain s1 where s1: "strip_prefix ''```'' s = Some s1"
    by (auto simp: fence_match_def split: option.splits)
  from assms s1 obtain s2 where s2: "dropWhile word_char s1 = NL # s2"
    by (auto simp: fence_match_def split: list.splits if_splits)
  from assms s1 s2 obtain code where code: "until_fence s2 = Some code"
    and r: "r = ''<pre><code>'' @ trim code @ ''</code></pre>''"
    and n: "n = 3 + length (takeWhile word_char s1) + 1 + length code + 3"
    by (auto simp: fence_match_def split: option.splits)
  from until_fence_Some [OF code] obtain rest where rest: "s2 = code @ ''```'' @ rest" by blast
  have "s1 = takeWhile word_char s1 @ NL # code @ ''```'' @ rest"
    using s2 rest takeWhile_dropWhile_id [of word_char s1] by simp
  with s1 have "s = ''```'' @ takeWhile word_char s1 @ NL # code @ ''```'' @ rest"
    by (simp add: strip_prefix_Some)
  with r n show ?thesis by (intro exI [of _ "takeWhile word_char s1"] exI [of _ code] exI [of _ rest]) simp
qed

lemma drop_match: "s = x @ rest \<Longrightarrow> n = length x \<Longrightarrow> drop n s = rest"
  by simp

lemma span_shape:
  assumes "takeWhile (\<lambda>x. x \<noteq> d) s1 \<noteq> []" "strip_prefix q (dropWhile (\<lambda>x. x \<noteq> d) s1) = Some rest"
  shows "s1 = takeWhile (\<lambda>x. x \<noteq> d) s1 @ q @ rest"
  using assms(2) takeWhile_dropWhile_id [of "\<lambda>x. x \<noteq> d" s1]
  by (simp add: strip_prefix_Some)

lemma code_match_Some:
  assumes "code_match b s = Some (r, n)"
  shows "\<exists>body rest. s = [BT] @ body @ [BT] @ rest \<and> r = ''<code>'' @ body @ ''</code>''
           \<and> n = length ([BT] @ body @ [BT])"
proof -
  from assms obtain s1 where s: "s = BT # s1"
    by (auto simp: code_match_def split: list.splits if_splits)
  let ?body = "takeWhile (\<lambda>x. x \<noteq> BT) s1" and ?rest = "dropWhile (\<lambda>x. x \<noteq> BT) s1"
  from assms s have b: "?body \<noteq> []" "?rest \<noteq> []" and r: "r = ''<code>'' @ ?body @ ''</code>''"
    and n: "n = length ?body + 2"
    by (auto simp: code_match_def Let_def split: if_splits)
  from b(2) have "hd ?rest = BT" using hd_dropWhile [of "\<lambda>x. x \<noteq> BT" s1] by simp
  with b(2) obtain rest where "?rest = BT # rest" by (cases ?rest) auto
  then have "s1 = ?body @ [BT] @ rest"
    using takeWhile_dropWhile_id [of "\<lambda>x. x \<noteq> BT" s1] by simp
  with s r n show ?thesis by (intro exI [of _ ?body] exI [of _ rest]) simp
qed

lemma bold_match_Some:
  assumes "bold_match b s = Some (r, n)"
  shows "\<exists>body rest. s = ''**'' @ body @ ''**'' @ rest \<and> r = ''<strong>'' @ body @ ''</strong>''
           \<and> n = length (''**'' @ body @ ''**'')"
proof -
  from assms obtain s1 where s: "strip_prefix ''**'' s = Some s1"
    by (auto simp: bold_match_def split: option.splits)
  let ?body = "takeWhile (\<lambda>x. x \<noteq> CHR ''*'') s1" and ?rest = "dropWhile (\<lambda>x. x \<noteq> CHR ''*'') s1"
  from assms s obtain rest where b: "?body \<noteq> []" "strip_prefix ''**'' ?rest = Some rest"
    and r: "r = ''<strong>'' @ ?body @ ''</strong>''" and n: "n = length ?body + 4"
    by (auto simp: bold_match_def Let_def split: if_splits)
  from span_shape [OF b] s have "s = ''**'' @ ?body @ ''**'' @ rest"
    by (simp add: strip_prefix_Some)
  with r n show ?thesis by (intro exI [of _ ?body] exI [of _ rest]) simp
qed

lemma italic_match_Some:
  assumes "italic_match b s = Some (r, n)"
  shows "\<exists>body rest. s = ''*'' @ body @ ''*'' @ rest \<and> r = ''<em>'' @ body @ ''</em>''
           \<and> n = length (''*'' @ body @ ''*'')"
proof -
  from assms obtain s1 where s: "strip_prefix ''*'' s = Some s1"
    by (auto simp: italic_match_def split: option.splits)
  let ?body = "takeWhile (\<lambda>x. x \<noteq> CHR ''*'') s1" and ?rest = "dropWhile (\<lambda>x. x \<noteq> CHR ''*'') s1"
  from assms s have b: "?body \<noteq> []" "?rest \<noteq> []"
    and r: "r = ''<em>'' @ ?body @ ''</em>''" and n: "n = length ?body + 2"
    by (auto simp: italic_match_def Let_def split: if_splits)
  from b(2) have "hd ?rest = CHR ''*''" using hd_dropWhile [of "\<lambda>x. x \<noteq> CHR ''*''" s1] by simp
  with b(2) obtain rest where "?rest = CHR ''*'' # rest" by (cases ?rest) auto
  then have "s1 = ?body @ ''*'' @ rest"
    using takeWhile_dropWhile_id [of "\<lambda>x. x \<noteq> CHR ''*''" s1] by simp
  with s have "s = ''*'' @ ?body @ ''*'' @ rest" by (simp add: strip_prefix_Some)
  with r n show ?thesis by (intro exI [of _ ?body] exI [of _ rest]) simp
qed

lemma ol_match_Some:
  assumes "ol_match b s = Some (r, n)"
  shows "\<exists>ds line rest. s = ds @ ''. '' @ line @ rest \<and> (\<forall>c\<in>set ds. digit c)
           \<and> (rest = [] \<or> LineTerminator (hd rest))
           \<and> r = ''<li>'' @ line @ ''</li>'' \<and> n = length (ds @ ''. '' @ line)"
proof -
  let ?ds = "takeWhile digit s"
  from assms obtain s1 where s1: "strip_prefix ''. '' (dropWhile digit s) = Some s1"
    by (auto simp: ol_match_def split: if_splits option.splits)
  let ?line = "takeWhile (\<lambda>x. \<not> LineTerminator x) s1"
  let ?rest = "dropWhile (\<lambda>x. \<not> LineTerminator x) s1"
  from assms s1 have r: "r = ''<li>'' @ ?line @ ''</li>''" and n: "n = length ?ds + 2 + length ?line"
    by (auto simp: ol_match_def Let_def split: if_splits)
  from s1 have "dropWhile digit s = ''. '' @ ?line @ ?rest" by (simp add: strip_prefix_Some)
  then have "s = ?ds @ ''. '' @ ?line @ ?rest"
    using takeWhile_dropWhile_id [of digit s] by simp
  moreover have "\<forall>c\<in>set ?ds. digit c" by (auto dest: set_takeWhileD)
  moreover have "?rest = [] \<or> LineTerminator (hd ?rest)"
    using hd_dropWhile [of "\<lambda>x. \<not> LineTerminator x" s1] by auto
  ultimately show ?thesis using r n
    by (intro exI [of _ ?ds] exI [of _ ?line] exI [of _ ?rest]) simp
qed

lemma last_close_Some: "last_close l = Some i \<Longrightarrow> \<exists>rest. drop i l = ''</li>'' @ rest"
proof (induction l arbitrary: i)
  case Nil
  then show ?case by simp
next
  case (Cons c cs)
  show ?case
  proof (cases "last_close cs")
    case None
    with Cons.prems obtain rest where "strip_prefix ''</li>'' (c # cs) = Some rest" "i = 0"
      by (auto split: if_splits)
    then have "c # cs = ''</li>'' @ rest" "i = 0" by (simp_all only: strip_prefix_Some)
    then show ?thesis by simp
  next
    case (Some j)
    with Cons.prems have "i = Suc j" by simp
    with Cons.IH [OF Some] show ?thesis by simp
  qed
qed

lemma li_item_Some:
  assumes "li_item s = Some k"
  shows "\<exists>x rest. s = x @ rest \<and> k = length x \<and> x \<noteq> [] \<and> hd x = CHR ''<''
           \<and> (last x = CHR ''>'' \<or> last x = NL)"
proof -
  from assms obtain s1 where s1: "strip_prefix ''<li>'' s = Some s1"
    by (auto simp: li_item_def split: option.splits)
  let ?l = "takeWhile (\<lambda>x. \<not> LineTerminator x) s1"
  from assms s1 obtain i where i: "last_close ?l = Some i"
    by (auto simp: li_item_def split: option.splits)
  from last_close_Some [OF i] obtain lrest where lr: "drop i ?l = ''</li>'' @ lrest" by blast
  then have il: "i \<le> length ?l" by (cases "i \<le> length ?l") auto
  have l: "?l = take i ?l @ ''</li>'' @ lrest" using lr append_take_drop_id [of i ?l] by simp
  let ?y = "''<li>'' @ take i ?l @ ''</li>''"
  have s1': "s1 = (take i ?l @ ''</li>'') @ lrest @ dropWhile (\<lambda>x. \<not> LineTerminator x) s1"
    using l takeWhile_dropWhile_id [of "\<lambda>x. \<not> LineTerminator x" s1]
    by (metis append.assoc)
  have len: "length (take i ?l @ ''</li>'') = i + 5" using il by simp
  have dr: "drop (i + 5) s1 = lrest @ dropWhile (\<lambda>x. \<not> LineTerminator x) s1"
    using drop_match [OF s1' len [symmetric]] .
  have s: "s = ?y @ drop (i + 5) s1"
    using s1 s1' dr by (simp add: strip_prefix_Some)
  have ly: "length ?y = i + 9" using il by simp
  show ?thesis
  proof (cases "drop (i + 5) s1")
    case Nil
    with assms s1 i have "k = i + 9" by (simp add: li_item_def)
    with s ly Nil show ?thesis by (intro exI [of _ ?y] exI [of _ "[]"]) simp
  next
    case (Cons c t)
    show ?thesis
    proof (cases "c = NL")
      case True
      with assms s1 i Cons have "k = i + 10" by (simp add: li_item_def)
      with s ly Cons True show ?thesis by (intro exI [of _ "?y @ [NL]"] exI [of _ t]) simp
    next
      case False
      with assms s1 i Cons have "k = i + 9" by (simp add: li_item_def)
      with s ly show ?thesis by (intro exI [of _ ?y] exI [of _ "drop (i + 5) s1"]) simp
    qed
  qed
qed

lemma li_items_Some:
  assumes "li_items k s = n" "0 < n"
  shows "\<exists>x rest. s = x @ rest \<and> n = length x \<and> hd x = CHR ''<''
           \<and> (last x = CHR ''>'' \<or> last x = NL)"
  using assms
proof (induction k arbitrary: s n)
  case 0
  then show ?case by simp
next
  case (Suc k)
  from Suc.prems obtain m where m: "li_item s = Some m" and n: "n = m + li_items k (drop m s)"
    by (auto split: option.splits)
  from li_item_Some [OF m] obtain x1 r1 where x1: "s = x1 @ r1" "m = length x1" "x1 \<noteq> []"
    "hd x1 = CHR ''<''" "last x1 = CHR ''>'' \<or> last x1 = NL" by blast
  then have d: "drop m s = r1" by simp
  show ?case
  proof (cases "li_items k r1 = 0")
    case True
    with n d x1 show ?thesis by (intro exI [of _ x1] exI [of _ r1]) simp
  next
    case False
    with Suc.IH [of r1 "li_items k r1"] obtain x2 rest where x2: "r1 = x2 @ rest"
      "li_items k r1 = length x2" "hd x2 = CHR ''<''" "last x2 = CHR ''>'' \<or> last x2 = NL"
      by auto
    with False have "x2 \<noteq> []" by auto
    with x1 x2 n d show ?thesis by (intro exI [of _ "x1 @ x2"] exI [of _ rest]) simp
  qed
qed

lemma first_of_Some: "first_of ts x = Some t \<Longrightarrow> t \<in> set ts \<and> (\<exists>rest. x = t @ rest)"
proof (induction ts)
  case Nil
  then show ?case by simp
next
  case (Cons u ts)
  show ?case
  proof (cases "strip_prefix u x")
    case None
    with Cons show ?thesis by auto
  next
    case (Some rest)
    with Cons.prems have "t = u" by simp
    with Some show ?thesis by (auto simp: strip_prefix_Some)
  qed
qed


section \<open>The stages keep the output tokenised\<close>

lemma tokenised_escapeHtml:
  assumes "set entities \<subseteq> set T"
  shows "tokenised T (escapeHtml s)"
proof (induction s)
  case Nil
  then show ?case by (simp add: escapeHtml_def tokenised.Nil)
next
  case (Cons c s)
  have "tokenised T (escape_char c)"
  proof (cases "reserved c \<or> c = NBSP")
    case True
    then consider "c = CHR ''&''" | "c = NBSP" | "c = CHR ''<''" | "c = CHR ''>''"
      by (auto simp: reserved_def)
    then show ?thesis
      using assms by cases (auto simp: entities_def intro!: tokenised_token)
  next
    case False
    then show ?thesis by (auto simp: reserved_def intro: tokenised.intros)
  qed
  with Cons show ?case by (simp add: escapeHtml_def tokenised_append del: escape_char.simps)
qed

lemma fence_step:
  assumes std: "std_tokens T" and tags: "set early_tags \<subseteq> set T"
    and "tokenised T (a @ s)" "fence_match b s = Some (r, n)"
  shows "tokenised T (a @ r @ drop n s)"
proof -
  note wf = std_tokensD(1) [OF std]
  from fence_match_Some [OF assms(4)] obtain lang code rest where
    s: "s = ''```'' @ lang @ NL # code @ ''```'' @ rest"
    and r: "r = ''<pre>'' @ ''<code>'' @ trim code @ ''</code>'' @ ''</pre>''"
    and n: "n = length (''```'' @ lang @ NL # code @ ''```'')" by blast
  have "s = (''```'' @ lang @ NL # code @ ''```'') @ rest" using s by simp
  then have d: "drop n s = rest" using n by (rule drop_match)
  from assms(3) have "tokenised T (a @ ''```'' @ (lang @ NL # code @ ''```'' @ rest))" by (simp add: s)
  then have a: "tokenised T a" and 1: "tokenised T (lang @ [NL] @ (code @ ''```'' @ rest))"
    using tokenised_split_delims [OF wf, of a "''```''"] by (simp_all add: std_tokensD [OF std])
  from 1 have "tokenised T (code @ ''```'' @ rest)"
    using tokenised_split_delims [OF wf, of lang "[NL]"] by (simp add: std_tokensD [OF std])
  then have c: "tokenised T code" "tokenised T rest"
    using tokenised_split_delims [OF wf, of code "''```''" rest] by (simp_all add: std_tokensD [OF std])
  have "tokenised T (''<code>'' @ trim code @ ''</code>'' @ [])"
    using tokenised_wrap [OF tokenised.Nil tokenised_trim [OF std c(1)] tokenised.Nil, of "''<code>''" "''</code>''"]
      tags by (simp add: early_tags_def)
  then have "tokenised T (a @ ''<pre>'' @ (''<code>'' @ trim code @ ''</code>'' @ []) @ ''</pre>'' @ rest)"
    using a c(2) tags by (intro tokenised_wrap) (simp_all add: early_tags_def)
  then show ?thesis by (simp add: r d)
qed

text \<open>A span between two delimiters: the shape shared by inline code, bold and italic.\<close>

lemma span_step:
  assumes "wf_tokens T" "tokenised T (a @ p @ body @ q @ rest)" "p \<noteq> []" "q \<noteq> []"
    "\<forall>c\<in>set p. delim T c" "\<forall>c\<in>set q. delim T c" "t1 \<in> set T" "t2 \<in> set T"
  shows "tokenised T (a @ (t1 @ body @ t2) @ rest)"
proof -
  from assms(2,3,5) have a: "tokenised T a" and 1: "tokenised T (body @ q @ rest)"
    using tokenised_split_delims [OF assms(1), of a p "body @ q @ rest"] by simp_all
  from 1 assms(4,6) have "tokenised T body" "tokenised T rest"
    using tokenised_split_delims [OF assms(1), of body q rest] by simp_all
  with a show ?thesis using tokenised_wrap [OF _ _ _ assms(7,8), of a body rest] by simp
qed

lemma code_step:
  assumes std: "std_tokens T" and tags: "set early_tags \<subseteq> set T"
    and "tokenised T (a @ s)" "code_match b s = Some (r, n)"
  shows "tokenised T (a @ r @ drop n s)"
proof -
  from code_match_Some [OF assms(4)] obtain body rest where
    s: "s = [BT] @ body @ [BT] @ rest" and r: "r = ''<code>'' @ body @ ''</code>''"
    and n: "n = length ([BT] @ body @ [BT])" by blast
  have "s = ([BT] @ body @ [BT]) @ rest" using s by simp
  then have d: "drop n s = rest" using n by (rule drop_match)
  have "tokenised T (a @ (''<code>'' @ body @ ''</code>'') @ rest)"
    using std_tokensD(1) [OF std] assms(3) [unfolded s]
    by (rule span_step) (use tags in \<open>simp_all add: std_tokensD [OF std] early_tags_def\<close>)
  then show ?thesis by (simp add: r d)
qed

lemma bold_step:
  assumes std: "std_tokens T" and tags: "set early_tags \<subseteq> set T"
    and "tokenised T (a @ s)" "bold_match b s = Some (r, n)"
  shows "tokenised T (a @ r @ drop n s)"
proof -
  from bold_match_Some [OF assms(4)] obtain body rest where
    s: "s = ''**'' @ body @ ''**'' @ rest" and r: "r = ''<strong>'' @ body @ ''</strong>''"
    and n: "n = length (''**'' @ body @ ''**'')" by blast
  have "s = (''**'' @ body @ ''**'') @ rest" using s by simp
  then have d: "drop n s = rest" using n by (rule drop_match)
  have "tokenised T (a @ (''<strong>'' @ body @ ''</strong>'') @ rest)"
    using std_tokensD(1) [OF std] assms(3) [unfolded s]
    by (rule span_step) (use tags in \<open>simp_all add: std_tokensD [OF std] early_tags_def\<close>)
  then show ?thesis by (simp add: r d)
qed

lemma italic_step:
  assumes std: "std_tokens T" and tags: "set early_tags \<subseteq> set T"
    and "tokenised T (a @ s)" "italic_match b s = Some (r, n)"
  shows "tokenised T (a @ r @ drop n s)"
proof -
  from italic_match_Some [OF assms(4)] obtain body rest where
    s: "s = ''*'' @ body @ ''*'' @ rest" and r: "r = ''<em>'' @ body @ ''</em>''"
    and n: "n = length (''*'' @ body @ ''*'')" by blast
  have "s = (''*'' @ body @ ''*'') @ rest" using s by simp
  then have d: "drop n s = rest" using n by (rule drop_match)
  have "tokenised T (a @ (''<em>'' @ body @ ''</em>'') @ rest)"
    using std_tokensD(1) [OF std] assms(3) [unfolded s]
    by (rule span_step) (use tags in \<open>simp_all add: std_tokensD [OF std] early_tags_def\<close>)
  then show ?thesis by (simp add: r d)
qed

text \<open>The rest of a line is cut off in front of a line terminator or at the end.\<close>

lemma tokenised_line_rest:
  assumes "std_tokens T" "tokenised T (line @ rest)" "rest = [] \<or> LineTerminator (hd rest)"
  shows "tokenised T line \<and> tokenised T rest"
proof (cases rest)
  case Nil
  with assms show ?thesis by (simp add: tokenised.Nil)
next
  case (Cons c rest')
  with assms(3) have "delim T c" by (simp add: std_tokensD(5) [OF assms(1)])
  with assms(2) Cons show ?thesis
    using tokenised_split_before [of T "line @ c # rest'" line c rest'] by (simp add: delim_def)
qed

lemma line_step:
  assumes std: "std_tokens T"
    and "tokenised T (a @ s)" "line_match p tag b s = Some (r, n)"
    and "p \<noteq> []" "\<forall>c\<in>set p. delim T c"
    and "''<'' @ tag @ ''>'' \<in> set T" "''</'' @ tag @ ''>'' \<in> set T"
  shows "tokenised T (a @ r @ drop n s)"
proof -
  from line_match_Some [OF assms(3)] obtain line rest where
    s: "s = p @ line @ rest" and rest: "rest = [] \<or> LineTerminator (hd rest)"
    and r: "r = ''<'' @ tag @ ''>'' @ line @ ''</'' @ tag @ ''>''"
    and n: "n = length p + length line" by blast
  have d: "drop n s = rest" using s n by simp
  from assms(2,4,5) s have a: "tokenised T a" and "tokenised T (line @ rest)"
    using tokenised_split_delims [OF std_tokensD(1) [OF std], of a p "line @ rest"] by simp_all
  with rest have "tokenised T line" "tokenised T rest" using tokenised_line_rest [OF std] by blast+
  with a have "tokenised T (a @ (''<'' @ tag @ ''>'') @ line @ (''</'' @ tag @ ''>'') @ rest)"
    by (intro tokenised_wrap assms(6,7))
  then show ?thesis by (simp add: r d)
qed

lemma ol_step:
  assumes std: "std_tokens T" and tags: "set early_tags \<subseteq> set T"
    and "tokenised T (a @ s)" "ol_match b s = Some (r, n)"
  shows "tokenised T (a @ r @ drop n s)"
proof -
  note wf = std_tokensD(1) [OF std]
  from ol_match_Some [OF assms(4)] obtain ds line rest where
    s: "s = ds @ ''. '' @ line @ rest" and ds: "\<forall>c\<in>set ds. digit c"
    and rest: "rest = [] \<or> LineTerminator (hd rest)"
    and r: "r = ''<li>'' @ line @ ''</li>''" and n: "n = length (ds @ ''. '' @ line)" by blast
  have "s = (ds @ ''. '' @ line) @ rest" using s by simp
  then have d: "drop n s = rest" using n by (rule drop_match)
  from assms(3) s have "tokenised T ((a @ ds) @ ''. '' @ (line @ rest))" by simp
  then have 1: "tokenised T (a @ ds)" and 2: "tokenised T (line @ rest)"
    using tokenised_split_delims [OF wf, of "a @ ds" "''. ''" "line @ rest"]
    by (simp_all add: std_tokensD [OF std])
  from 1 ds have a: "tokenised T a"
    by (intro tokenised_take_nonclosing [OF wf, of a ds]) (auto simp: std_tokensD(13) [OF std])
  from 2 rest have "tokenised T line" "tokenised T rest" using tokenised_line_rest [OF std] by blast+
  with a have "tokenised T (a @ ''<li>'' @ line @ ''</li>'' @ rest)"
    using tags by (intro tokenised_wrap) (simp_all add: early_tags_def)
  then show ?thesis by (simp add: r d)
qed

lemma ul_step:
  assumes std: "std_tokens T" and tags: "set early_tags \<subseteq> set T"
    and "tokenised T (a @ s)" "ul_match b s = Some (r, n)"
  shows "tokenised T (a @ r @ drop n s)"
proof -
  note wf = std_tokensD(1) [OF std]
  from assms(4) have n: "li_items (length s) s = n" "0 < n" and r: "r = ''<ul>'' @ take n s @ ''</ul>''"
    by (auto simp: ul_match_def Let_def split: if_splits)
  from li_items_Some [OF n] obtain x rest where x: "s = x @ rest" "n = length x"
    "hd x = CHR ''<''" "last x = CHR ''>'' \<or> last x = NL" by blast
  with n(2) have ne: "x \<noteq> []" by auto
  have td: "take n s = x" "drop n s = rest" using x(1,2) by simp_all
  from ne x(3) obtain x' where x': "x = CHR ''<'' # x'" by (cases x) auto
  from assms(3) x(1) x' have a: "tokenised T a" and 1: "tokenised T (x @ rest)"
    using tokenised_split_before [of T "a @ x @ rest" a "CHR ''<''" "x' @ rest"] std_tokensD(2) [OF std]
    by simp_all
  from ne obtain y c where y: "x = y @ [c]" by (cases x rule: rev_cases) auto
  have "\<not> nonfinal T NL"
  proof
    assume "nonfinal T NL"
    then obtain t where t: "t \<in> set T" "NL \<in> set (butlast t)" unfolding nonfinal_def by blast
    from wf_tokenD(1,2) [OF wf t(1)] t(2) have "NL \<in> set (tl t)"
      by (cases t) (auto simp: reserved_def dest: in_set_butlastD split: if_splits)
    with t(1) have "inner T NL" unfolding inner_def by blast
    with std_tokensD(12) [OF std] show False by (simp add: delim_def)
  qed
  with y x(4) std_tokensD(3) [OF std] have "\<not> nonfinal T c" by auto
  with 1 y have "tokenised T x" "tokenised T rest"
    using tokenised_split_after [OF wf, of "x @ rest" y c rest] by simp_all
  with a have "tokenised T (a @ ''<ul>'' @ x @ ''</ul>'' @ rest)"
    using tags by (intro tokenised_wrap) (simp_all add: early_tags_def)
  then show ?thesis by (simp add: r td)
qed

lemma para_step:
  assumes "wf_tokens T" "delim T NL" "tokenised T ''</p><p>''"
    and "tokenised T (a @ s)" "para_match b s = Some (r, n)"
  shows "tokenised T (a @ r @ drop n s)"
proof -
  from assms(5) obtain rest where s: "s = [NL, NL] @ rest" and r: "r = ''</p><p>''" and n: "n = 2"
    by (auto simp: para_match_def strip_prefix_Some split: option.splits)
  from assms(4) s have "tokenised T a" "tokenised T rest"
    using tokenised_split_delims [OF assms(1), of a "[NL, NL]" rest] assms(2) by simp_all
  with assms(3) have "tokenised T (a @ ''</p><p>'' @ rest)"
    by (intro tokenised_append)
  then show ?thesis by (simp add: r n s)
qed

lemma empty_p_step:
  assumes std: "std_tokens T" and tags: "''<p>'' \<in> set T" "''</p>'' \<in> set T"
    and "tokenised T (a @ s)" "empty_p_match b s = Some (r, n)"
  shows "tokenised T (a @ r @ drop n s)"
proof -
  from assms(5) obtain s1 where s1: "strip_prefix ''<p>'' s = Some s1"
    by (auto simp: empty_p_match_def split: option.splits)
  let ?ws = "takeWhile WhiteSpace s1"
  from assms(5) s1 obtain rest where rest: "strip_prefix ''</p>'' (dropWhile WhiteSpace s1) = Some rest"
    and r: "r = []" and n: "n = 3 + length ?ws + 4"
    by (auto simp: empty_p_match_def split: if_splits)
  have "s1 = ?ws @ ''</p>'' @ rest"
    using rest takeWhile_dropWhile_id [of WhiteSpace s1] by (simp add: strip_prefix_Some)
  with s1 have s: "s = (''<p>'' @ ?ws @ ''</p>'') @ rest" by (simp add: strip_prefix_Some)
  have d: "drop n s = rest" using s by (rule drop_match) (simp add: n)
  from assms(4) s have "tokenised T (a @ ''<p>'' @ (?ws @ ''</p>'' @ rest))" by simp
  then have a: "tokenised T a" and 1: "tokenised T (?ws @ ''</p>'' @ rest)"
    using tokenised_cut_tag [OF std _ tags(1), of a] by simp_all
  from 1 have "tokenised T rest"
    using tokenised_cut_tag [OF std _ tags(2), of ?ws rest] by simp
  with a show ?thesis by (simp add: r d tokenised_append)
qed

lemma open_p_step:
  assumes std: "std_tokens T" and tags: "''<p>'' \<in> set T" "''</p>'' \<in> set T"
    and ts: "\<forall>t\<in>set ts. t \<in> set T \<and> hd t = CHR ''<''"
    and "tokenised T (a @ s)" "open_p_match ts b s = Some (r, n)"
  shows "tokenised T (a @ r @ drop n s)"
proof -
  from assms(6) obtain s1 where s1: "strip_prefix ''<p>'' s = Some s1"
    by (auto simp: open_p_match_def split: option.splits)
  let ?ws = "takeWhile WhiteSpace s1"
  from assms(6) s1 have t: "first_of ts (dropWhile WhiteSpace s1) = Some r"
    and n: "n = 3 + length ?ws + length r"
    by (auto simp: open_p_match_def split: option.splits)
  from first_of_Some [OF t] obtain rest where rt: "r \<in> set ts" "dropWhile WhiteSpace s1 = r @ rest"
    by blast
  have "s1 = ?ws @ r @ rest"
    using rt(2) takeWhile_dropWhile_id [of WhiteSpace s1] by simp
  with s1 have s: "s = (''<p>'' @ ?ws @ r) @ rest" by (simp add: strip_prefix_Some)
  have d: "drop n s = rest" using s by (rule drop_match) (simp add: n)
  from rt(1) ts have tag: "r \<in> set T" "hd r = CHR ''<''" by blast+
  from assms(5) s have "tokenised T (a @ ''<p>'' @ (?ws @ r @ rest))" by simp
  then have a: "tokenised T a" and 1: "tokenised T (?ws @ r @ rest)"
    using tokenised_cut_tag [OF std _ tags(1), of a] by simp_all
  from 1 tag have "tokenised T rest" using tokenised_cut_tag [OF std, of ?ws r rest] by simp
  with a tag show ?thesis by (simp add: d tokenised_tag_mid)
qed

lemma close_p_step:
  assumes std: "std_tokens T" and tags: "''<p>'' \<in> set T" "''</p>'' \<in> set T"
    and ts: "\<forall>t\<in>set ts. t \<in> set T \<and> hd t = CHR ''<''"
    and "tokenised T (a @ s)" "close_p_match ts b s = Some (r, n)"
  shows "tokenised T (a @ r @ drop n s)"
proof -
  from assms(6) have t: "first_of ts s = Some r"
    by (auto simp: close_p_match_def Let_def split: option.splits if_splits)
  from first_of_Some [OF t] obtain s1 where rt: "r \<in> set ts" "s = r @ s1" by blast
  then have s1: "drop (length r) s = s1" by simp
  let ?ws = "takeWhile WhiteSpace s1"
  from assms(6) t s1 obtain rest where rest: "strip_prefix ''</p>'' (dropWhile WhiteSpace s1) = Some rest"
    and n: "n = length r + length ?ws + 4"
    by (auto simp: close_p_match_def Let_def split: if_splits)
  have "s1 = ?ws @ ''</p>'' @ rest"
    using rest takeWhile_dropWhile_id [of WhiteSpace s1] by (simp add: strip_prefix_Some)
  with rt(2) have s: "s = (r @ ?ws @ ''</p>'') @ rest" by simp
  have d: "drop n s = rest" using s by (rule drop_match) (simp add: n)
  from rt(1) ts have tag: "r \<in> set T" "hd r = CHR ''<''" by blast+
  from assms(5) s have "tokenised T (a @ r @ (?ws @ ''</p>'' @ rest))" by simp
  with tag have a: "tokenised T a" and 1: "tokenised T (?ws @ ''</p>'' @ rest)"
    using tokenised_cut_tag [OF std, of a r] by simp_all
  from 1 have "tokenised T rest"
    using tokenised_cut_tag [OF std _ tags(2), of ?ws rest] by simp
  with a tag show ?thesis by (simp add: d tokenised_tag_mid)
qed

lemma tokenised_replace:
  assumes "\<And>a b s r n. tokenised T (a @ s) \<Longrightarrow> m b s = Some (r, n) \<Longrightarrow> tokenised T (a @ r @ drop n s)"
    and "tokenised T s"
  shows "tokenised T (replace m s)"
  using replace_all_invariant [of "tokenised T" m "[]" s True] assms by (simp add: replace_def)

lemma tokenised_early_stages:
  assumes std: "std_tokens T" and tags: "set early_tags \<subseteq> set T" and ents: "set entities \<subseteq> set T"
  shows "tokenised T (list_stage (emphasis_stage (header_stage (code_stage (escapeHtml text)))))"
proof -
  note d = std_tokensD [OF std]
  have m: "''<h1>'' \<in> set T" "''</h1>'' \<in> set T" "''<h2>'' \<in> set T" "''</h2>'' \<in> set T"
    "''<h3>'' \<in> set T" "''</h3>'' \<in> set T" "''<li>'' \<in> set T" "''</li>'' \<in> set T"
    using tags by (auto simp: early_tags_def)
  have 0: "tokenised T (escapeHtml text)" by (rule tokenised_escapeHtml [OF ents])
  have 1: "tokenised T (code_stage (escapeHtml text))"
    unfolding code_stage_def
    by (intro tokenised_replace [where m = code_match] tokenised_replace [where m = fence_match] 0)
       (auto intro: code_step [OF std tags] fence_step [OF std tags])
  have l: "tokenised T (replace (line_match p tag) s)"
    if "tokenised T s" "p \<noteq> []" "\<forall>c\<in>set p. delim T c" "''<'' @ tag @ ''>'' \<in> set T"
      "''</'' @ tag @ ''>'' \<in> set T" for p tag s
    using that(1) by (rule tokenised_replace [rotated]) (rule line_step [OF std _ _ that(2-5)])
  have 2: "tokenised T (header_stage (code_stage (escapeHtml text)))"
    unfolding header_stage_def using m by (intro l 1) (simp_all add: d)
  have 3: "tokenised T (emphasis_stage (header_stage (code_stage (escapeHtml text))))"
    unfolding emphasis_stage_def
    by (intro tokenised_replace [where m = italic_match] tokenised_replace [where m = bold_match] 2)
       (auto intro: bold_step [OF std tags] italic_step [OF std tags])
  have "tokenised T (replace (line_match ''- '' ''li'')
          (emphasis_stage (header_stage (code_stage (escapeHtml text)))))"
    using m by (intro l 3) (simp_all add: d)
  then have "tokenised T (replace ul_match (replace (line_match ''- '' ''li'')
          (emphasis_stage (header_stage (code_stage (escapeHtml text))))))"
    by (rule tokenised_replace [rotated]) (rule ul_step [OF std tags])
  then show ?thesis
    unfolding list_stage_def by (rule tokenised_replace [rotated]) (rule ol_step [OF std tags])
qed


lemma std_tokens_all: "std_tokens (renderer_tags @ entities)"
  unfolding std_tokens_def
proof (intro conjI)
  show "wf_tokens (renderer_tags @ entities)"
    by (simp add: wf_tokens_def renderer_tags_def early_tags_def entities_def reserved_def)
  show "\<not> inner (renderer_tags @ entities) (CHR ''<'')" "\<not> nonfinal (renderer_tags @ entities) (CHR ''>'')"
    by (simp_all add: inner_def nonfinal_def renderer_tags_def early_tags_def entities_def)
  show "\<forall>c. WhiteSpace c \<longrightarrow> delim (renderer_tags @ entities) c"
    by (auto simp: WhiteSpace_def delim_def inner_def reserved_def renderer_tags_def early_tags_def entities_def)
  show "\<forall>c\<in>set ''`*#-. ''. delim (renderer_tags @ entities) c"
    by (simp add: delim_def inner_def reserved_def renderer_tags_def early_tags_def entities_def)
  show "\<forall>c. digit c \<longrightarrow> \<not> closing (renderer_tags @ entities) c"
    by (auto simp: digit_def closing_def renderer_tags_def early_tags_def entities_def)
  show "\<forall>t\<in>set (renderer_tags @ entities). hd t = CHR ''<'' \<longrightarrow> last t = CHR ''>''"
    by (simp add: renderer_tags_def early_tags_def entities_def)
qed

lemma safe_paragraph_stage: "safe s \<Longrightarrow> safe (paragraph_stage s)"
proof -
  let ?T = "renderer_tags @ entities"
  assume "safe s"
  then have s: "tokenised ?T s" by (simp add: safe_def)
  have p: "tokenised ?T ''</p><p>''"
    using tokenised_wrap [OF tokenised.Nil tokenised.Nil tokenised.Nil, of "''</p>''" ?T "''<p>''"]
    by (simp add: renderer_tags_def)
  have "tokenised ?T (replace para_match s)"
    using s by (rule tokenised_replace [rotated])
      (rule para_step [OF std_tokensD(1) [OF std_tokens_all] std_tokensD(12) [OF std_tokens_all] p])
  then have "tokenised ?T ([] @ ''<p>'' @ replace para_match s @ ''</p>'' @ [])"
    by (intro tokenised_wrap) (simp_all add: renderer_tags_def tokenised.Nil)
  then show ?thesis by (simp add: paragraph_stage_def safe_def)
qed

lemma safe_cleanup_stage: "safe s \<Longrightarrow> safe (cleanup_stage s)"
proof -
  let ?T = "renderer_tags @ entities"
  have p: "''<p>'' \<in> set ?T" "''</p>'' \<in> set ?T" by (simp_all add: renderer_tags_def)
  have o: "tokenised ?T (replace (open_p_match ts) x)"
    if "tokenised ?T x" "\<forall>t\<in>set ts. t \<in> set ?T \<and> hd t = CHR ''<''" for ts x
    using that(1) by (rule tokenised_replace [rotated]) (rule open_p_step [OF std_tokens_all p that(2)])
  have c: "tokenised ?T (replace (close_p_match ts) x)"
    if "tokenised ?T x" "\<forall>t\<in>set ts. t \<in> set ?T \<and> hd t = CHR ''<''" for ts x
    using that(1) by (rule tokenised_replace [rotated]) (rule close_p_step [OF std_tokens_all p that(2)])
  have e: "tokenised ?T (replace empty_p_match x)" if "tokenised ?T x" for x
    using that by (rule tokenised_replace [rotated]) (rule empty_p_step [OF std_tokens_all p])
  assume "safe s"
  then have "tokenised ?T s" by (simp add: safe_def)
  then show ?thesis
    unfolding cleanup_stage_def safe_def
    by (intro o c e) (simp_all add: renderer_tags_def early_tags_def)
qed

lemma renderMarkdown_tokenised: "safe (renderMarkdown text)"
proof -
  have "tokenised (renderer_tags @ entities)
          (list_stage (emphasis_stage (header_stage (code_stage (escapeHtml text)))))"
    by (rule tokenised_early_stages [OF std_tokens_all]) (auto simp: renderer_tags_def)
  then show ?thesis
    unfolding renderMarkdown_def
    by (intro safe_cleanup_stage safe_paragraph_stage) (simp add: safe_def)
qed

text \<open>In a tokenised string every \<open><\<close>, \<open>>\<close> and \<open>&\<close> lies inside a token.\<close>

lemma tokenised_reserved_in_token:
  assumes "tokenised T s" "s = a @ c # b" "reserved c"
  shows "\<exists>a' t b'. s = a' @ t @ b' \<and> t \<in> set T \<and> length a' \<le> length a
           \<and> length a < length a' + length t"
  using assms
proof (induction s arbitrary: a rule: tokenised.induct)
  case Nil
  then show ?case by simp
next
  case (Plain c' s')
  show ?case
  proof (cases a)
    case Nil
    with Plain show ?thesis by simp
  next
    case (Cons x a0)
    with Plain.prems have "s' = a0 @ c # b" by simp
    from Plain.IH [OF this Plain.prems(2)] obtain a' t b' where
      h: "s' = a' @ t @ b'" "t \<in> set T" "length a' \<le> length a0" "length a0 < length a' + length t"
      by blast
    show ?thesis
      using h Cons by (intro exI [of _ "c' # a'"] exI [of _ t] exI [of _ b']) simp
  qed
next
  case (Token t s')
  show ?case
  proof (cases "length a < length t")
    case True
    with Token.hyps(1) show ?thesis
      by (intro exI [of _ "[]"] exI [of _ t] exI [of _ s']) simp
  next
    case False
    with Token.prems(1) obtain u where u: "a = t @ u" "s' = u @ c # b"
      by (auto simp: append_eq_append_conv2)
    from Token.IH [OF u(2) Token.prems(2)] obtain a' t' b' where
      h: "s' = a' @ t' @ b'" "t' \<in> set T" "length a' \<le> length u" "length u < length a' + length t'"
      by blast
    show ?thesis
      using h u by (intro exI [of _ "t @ a'"] exI [of _ t'] exI [of _ b']) simp
  qed
qed

section \<open>Rules that do not match\<close>






lemma li_items_None: "li_item s = None \<Longrightarrow> li_items k s = 0"
  by (cases k) simp_all


text \<open>The bound on the rounds of \<open>li_items\<close> is never reached: any bound from the length of the
  input on gives the same result.\<close>

lemma li_items_fuel_eq:
  "length s \<le> k \<Longrightarrow> length s \<le> k' \<Longrightarrow> li_items k s = li_items k' s"
proof (induction "length s" arbitrary: s k k' rule: less_induct)
  case less
  show ?case
  proof (cases "li_item s")
    case None
    then show ?thesis by (simp add: li_items_None)
  next
    case (Some n)
    from li_item_Some [OF Some] obtain x rest where x: "s = x @ rest" "n = length x" "x \<noteq> []"
      by blast
    with less.prems obtain k1 k1' where k: "k = Suc k1" "k' = Suc k1'"
      by (cases k; cases k') auto
    from x less.prems k have "length rest < length s" "length rest \<le> k1" "length rest \<le> k1'"
      by (cases x; simp)+
    then have "li_items k1 rest = li_items k1' rest" by (rule less.hyps)
    with Some x k show ?thesis by simp
  qed
qed

lemma li_items_fuel: "length s \<le> k \<Longrightarrow> li_items k s = li_items (length s) s"
  by (rule li_items_fuel_eq) simp_all




















lemma no_LT_literal: "\<not> LineTerminator c" if "c \<in> set ''<pre><code>'' \<or> c \<in> set ''</code></pre>''"
  using that by (auto simp: LineTerminator_def)








section \<open>Messages of one block\<close>


















section \<open>Paragraphs\<close>

























section \<open>Injection safety\<close>

text \<open>
  C1, as the code has it. For every input the output is safe: it is a sequence of tags that
  the renderer writes, of the entity references \<open>&amp;\<close>, \<open>&nbsp;\<close>, \<open>&lt;\<close>, \<open>&gt;\<close> that
  the escaping stage writes, and of units other than \<open><\<close>, \<open>>\<close> and \<open>&\<close>. So every \<open><\<close>,
  \<open>>\<close> and \<open>&\<close> of the output lies inside one of these tags or entity references, and
  none of them is a raw unit of the input.
\<close>

theorem renderMarkdown_safe:
  "safe (renderMarkdown text)
   \<and> (\<forall>a c b. renderMarkdown text = a @ c # b \<and> reserved c \<longrightarrow>
        (\<exists>a' t b'. renderMarkdown text = a' @ t @ b' \<and> t \<in> set (renderer_tags @ entities)
            \<and> length a' \<le> length a \<and> length a < length a' + length t))"
  using renderMarkdown_tokenised [of "text"] tokenised_reserved_in_token [of "renderer_tags @ entities" "renderMarkdown text"]
  unfolding safe_def by blast

theorem renderMarkdown_safe_witness:
  "renderMarkdown ''<b>'' = ''<p>'' @ CHR ''&'' # ''lt;b&gt;</p>'' \<and> reserved (CHR ''&'')
   \<and> (\<exists>a' t b'. renderMarkdown ''<b>'' = a' @ t @ b' \<and> t \<in> set (renderer_tags @ entities)
          \<and> length a' \<le> length ''<p>'' \<and> length ''<p>'' < length a' + length t)"
proof -
  have e: "renderMarkdown ''<b>'' = ''<p>'' @ CHR ''&'' # ''lt;b&gt;</p>''"
    by (simp add: stage_defs match_defs)
  have r: "reserved (CHR ''&'')" by (simp add: reserved_def)
  from renderMarkdown_safe [of "''<b>''"] e r
  have "\<exists>a' t b'. renderMarkdown ''<b>'' = a' @ t @ b' \<and> t \<in> set (renderer_tags @ entities)
          \<and> length a' \<le> length ''<p>'' \<and> length ''<p>'' < length a' + length t"
    by blast
  with e r show ?thesis by blast
qed

text \<open>
  C1, as the specification states it, fails for the double quote: a \<open>"\<close> of the input is
  in the output as it is, not as an entity reference.
\<close>

theorem quote_not_escaped_counterexample:
  "renderMarkdown [QUOT] = ''<p>'' @ [QUOT] @ ''</p>''
   \<and> QUOT \<in> set (renderMarkdown [QUOT])"
  by (simp add: stage_defs match_defs)

section \<open>The escaping stage\<close>

text \<open>
  C4, as the code has it. The escaping stage is a homomorphism on strings that maps \<open>&\<close> to
  \<open>&amp;\<close>, \<open><\<close> to \<open>&lt;\<close>, \<open>>\<close> to \<open>&gt;\<close> and U+00A0 to \<open>&nbsp;\<close>, and leaves every
  other unit unchanged; the double quote and the newline are among the unchanged ones.
\<close>

theorem escapeHtml_text_node:
  "escapeHtml (a @ b) = escapeHtml a @ escapeHtml b
   \<and> escapeHtml ''&'' = ''&amp;'' \<and> escapeHtml ''<'' = ''&lt;'' \<and> escapeHtml ''>'' = ''&gt;''
   \<and> escapeHtml [NBSP] = ''&nbsp;''
   \<and> (c \<notin> {CHR ''&'', CHR ''<'', CHR ''>'', NBSP} \<longrightarrow> escapeHtml [c] = [c])"
  by (simp add: escapeHtml_def)

theorem escapeHtml_text_node_witness:
  "QUOT \<notin> {CHR ''&'', CHR ''<'', CHR ''>'', NBSP} \<and> escapeHtml [QUOT] = [QUOT]
   \<and> NL \<notin> {CHR ''&'', CHR ''<'', CHR ''>'', NBSP} \<and> escapeHtml [NL] = [NL]"
  using escapeHtml_text_node [of "[]" "[]" QUOT] escapeHtml_text_node [of "[]" "[]" NL]
  by simp

text \<open>
  C4, as the specification states it, fails: a double quote is not turned into \<open>&quot;\<close>, and
  U+00A0 is not left unchanged.
\<close>

theorem escapeHtml_quote_counterexample:
  "escapeHtml [QUOT] \<noteq> ''&quot;'' \<and> escapeHtml [QUOT] = [QUOT]
   \<and> escapeHtml [NBSP] \<noteq> [NBSP] \<and> escapeHtml [NBSP] = ''&nbsp;''"
  by (simp add: escapeHtml_def)

section \<open>The body of a fenced block\<close>




section \<open>Headers\<close>




section \<open>Unordered lists\<close>




section \<open>Emphasis\<close>

text \<open>
  C8, as the code has it. The bold rule rewrites a span \<open>**...**\<close> that is not empty and
  holds no asterisk, whether or not it holds a newline, to \<open><strong>...</strong>\<close>, and it
  runs before the italic rule: a bold span followed by an italic span comes out as
  \<open><strong>\<close> followed by \<open><em>\<close>. With the two rules in the other order the single
  asterisk rule would take the delimiters of the bold span apart.
\<close>

theorem emphasis_bold_first:
  assumes "x \<noteq> []" "CHR ''*'' \<notin> set x" "y \<noteq> []" "CHR ''*'' \<notin> set y"
  shows "emphasis_stage (''**'' @ x @ ''** *'' @ y @ ''*'')
           = ''<strong>'' @ x @ ''</strong> <em>'' @ y @ ''</em>''
         \<and> renderMarkdown ''**a** *b*'' = ''<p><strong>a</strong> <em>b</em></p>''
         \<and> replace bold_match (replace italic_match ''**a** *b*'') = ''*<em>a</em><em> </em>b*''"
proof (intro conjI)
  show "emphasis_stage (''**'' @ x @ ''** *'' @ y @ ''*'')
          = ''<strong>'' @ x @ ''</strong> <em>'' @ y @ ''</em>''"
    by (rule emphasis_stage_spans [OF assms])
  show "renderMarkdown ''**a** *b*'' = ''<p><strong>a</strong> <em>b</em></p>''"
    by (simp add: stage_defs match_defs)
  show "replace bold_match (replace italic_match ''**a** *b*'') = ''*<em>a</em><em> </em>b*''"
    by (simp add: stage_defs match_defs)
qed

theorem emphasis_bold_first_witness:
  "emphasis_stage (''**'' @ (''a'' @ [NL] @ ''c'') @ ''** *'' @ ''b'' @ ''*'')
   = ''<strong>'' @ (''a'' @ [NL] @ ''c'') @ ''</strong> <em>'' @ ''b'' @ ''</em>''"
  using emphasis_bold_first [of "''a'' @ [NL] @ ''c''" "''b''"]
  by simp

text \<open>
  C8, as the specification states it, describes the bold rule as taking spans with no newline
  inside. The rule of the code takes a span across a newline.
\<close>

theorem bold_across_newline_counterexample:
  "emphasis_stage (''**a'' @ [NL] @ ''b**'') = ''<strong>a'' @ [NL] @ ''b</strong>''
   \<and> renderMarkdown (''**a'' @ [NL] @ ''b**'') = ''<p><strong>a'' @ [NL] @ ''b</strong></p>''"
  by (simp add: stage_defs match_defs)

section \<open>Code content\<close>




section \<open>Markup that matches nothing\<close>



section \<open>Empty paragraphs and nested blocks\<close>



section \<open>The empty message\<close>

text \<open>
  C10. On the empty input the paragraph stage produces \<open><p></p>\<close> and the cleanup removes
  that empty wrapper again, so the renderer returns the empty string.
\<close>

theorem renderMarkdown_empty:
  "paragraph_stage (list_stage (emphasis_stage (header_stage (code_stage (escapeHtml []))))) = ''<p></p>''
   \<and> cleanup_stage ''<p></p>'' = []
   \<and> renderMarkdown [] = []"
  by (simp add: stage_defs match_defs)

end
